theory Spec2Isabelle
  imports Complex_Main "HOL-Library.AList"
begin

section \<open>The matrix reducer of \<^verbatim>\<open>convert_csv_to_json.py\<close>\<close>

text \<open>
  The script reads a table (the list of rows that \<^verbatim>\<open>csv.reader\<close> returns, each row a
  list of text cells), keeps the header names, and builds a dictionary of
  dictionaries holding the numeric cells above the diagonal. The model starts from the
  list of rows and ends with the document handed to \<^verbatim>\<open>json.dump\<close>.

  A cell is the list of its characters; a \<open>char\<close> stands for a code point below 256.
\<close>

subsection \<open>Errors and data\<close>

text \<open>
  The two exceptions the loop can raise through indexing: \<^verbatim>\<open>rows[0]\<close>, \<^verbatim>\<open>row[0]\<close> and
  \<^verbatim>\<open>headers[j]\<close> raise \<open>IndexError\<close>, \<^verbatim>\<open>correlations[node_name]\<close> raises \<open>KeyError\<close>.
  Neither is caught by the script: the only handler is for \<^verbatim>\<open>ValueError\<close>.
\<close>

datatype error = IndexError | KeyError

text \<open>
  A Python dictionary keeps its keys in insertion order, and storing under a key that
  is already present keeps the key's place. An association list with
  \<open>AList.update\<close> (replace in place, else append) and \<open>map_of\<close> (look up) does the same.
\<close>

type_synonym 'v inner_dict = "(string \<times> 'v) list"

type_synonym 'v outer_dict = "(string \<times> (string \<times> 'v) list) list"

text \<open>The dictionary \<^verbatim>\<open>output\<close> with its two keys.\<close>

record 'v document =
  nodes :: "string list"
  correlations :: "(string \<times> (string \<times> 'v) list) list"

subsection \<open>Blank cells\<close>

text \<open>
  \<^verbatim>\<open>str.strip()\<close> removes leading and trailing whitespace: the characters for which
  \<^verbatim>\<open>str.isspace\<close> holds, which below code point 256 are 9 to 13, 28 to 32, 133 and 160.
\<close>

definition isspace :: "char \<Rightarrow> bool" where
  "isspace c = (of_char c \<in> {9, 10, 11, 12, 13, 28, 29, 30, 31, 32, 133, 160 :: nat})"

definition strip :: "string \<Rightarrow> string" where
  "strip s = rev (dropWhile isspace (rev (dropWhile isspace s)))"

text \<open>The test of line 23, \<^verbatim>\<open>value and value.strip()\<close>: both strings are non-empty.\<close>

definition nonblank :: "string \<Rightarrow> bool" where
  "nonblank value = (value \<noteq> [] \<and> strip value \<noteq> [])"

subsection \<open>The loops\<close>

text \<open>
  The builtin \<^verbatim>\<open>float\<close> is a parameter \<open>pyfloat\<close> of the model: \<open>pyfloat value = None\<close>
  when \<^verbatim>\<open>float(value)\<close> raises \<^verbatim>\<open>ValueError\<close>, and \<open>Some x\<close> when it returns \<open>x\<close>. The
  type \<open>'v\<close> of the numbers is left open (in the program it is the IEEE double).

  The body of the inner loop, lines 23 to 32, for the cell \<open>value\<close> at position \<open>j\<close> of
  the data row \<open>i\<close> named \<open>node_name\<close>. The header is indexed before the triangle
  test, as in the source.
\<close>

definition cell_step ::
  "(string \<Rightarrow> 'v option) \<Rightarrow> string list \<Rightarrow> string \<Rightarrow> nat \<Rightarrow> nat \<Rightarrow> string
     \<Rightarrow> 'v outer_dict \<Rightarrow> error + 'v outer_dict" where
  "cell_step pyfloat headers node_name i j value cs =
     (if nonblank value then
        (case pyfloat value of
           None \<Rightarrow> Inr cs
         | Some corr_value \<Rightarrow>
             if j < length headers then
               (let other_node = headers ! j in
                if j > i then
                  (case map_of cs node_name of
                     None \<Rightarrow> Inl KeyError
                   | Some inner \<Rightarrow>
                       Inr (AList.update node_name
                              (AList.update other_node corr_value inner) cs))
                else Inr cs)
             else Inl IndexError)
      else Inr cs)"

text \<open>The inner loop \<^verbatim>\<open>for j, value in enumerate(row[1:], start=0)\<close>.\<close>

fun cells_loop ::
  "(string \<Rightarrow> 'v option) \<Rightarrow> string list \<Rightarrow> string \<Rightarrow> nat \<Rightarrow> nat \<Rightarrow> string list
     \<Rightarrow> 'v outer_dict \<Rightarrow> error + 'v outer_dict" where
  "cells_loop pyfloat headers node_name i j [] cs = Inr cs"
| "cells_loop pyfloat headers node_name i j (value # rest) cs =
     (case cell_step pyfloat headers node_name i j value cs of
        Inl e \<Rightarrow> Inl e
      | Inr cs' \<Rightarrow> cells_loop pyfloat headers node_name i (Suc j) rest cs')"

text \<open>
  The body of the outer loop, lines 17 to 32: \<^verbatim>\<open>row[0]\<close> fails on a row with no cell,
  then the row's dictionary is set to the empty one and the cells \<^verbatim>\<open>row[1:]\<close> are
  walked.
\<close>

definition row_step ::
  "(string \<Rightarrow> 'v option) \<Rightarrow> string list \<Rightarrow> nat \<Rightarrow> string list
     \<Rightarrow> 'v outer_dict \<Rightarrow> error + 'v outer_dict" where
  "row_step pyfloat headers i row cs =
     (case row of
        [] \<Rightarrow> Inl IndexError
      | node_name # cells \<Rightarrow>
          cells_loop pyfloat headers node_name i 0 cells (AList.update node_name [] cs))"

text \<open>The outer loop \<^verbatim>\<open>for i, row in enumerate(rows[1:], start=0)\<close>.\<close>

fun rows_loop ::
  "(string \<Rightarrow> 'v option) \<Rightarrow> string list \<Rightarrow> nat \<Rightarrow> string list list
     \<Rightarrow> 'v outer_dict \<Rightarrow> error + 'v outer_dict" where
  "rows_loop pyfloat headers i [] cs = Inr cs"
| "rows_loop pyfloat headers i (row # rest) cs =
     (case row_step pyfloat headers i row cs of
        Inl e \<Rightarrow> Inl e
      | Inr cs' \<Rightarrow> rows_loop pyfloat headers (Suc i) rest cs')"

text \<open>
  Lines 11 to 38: \<^verbatim>\<open>headers = rows[0][1:]\<close> (an \<open>IndexError\<close> when there is no row, the
  slice itself never fails), the loops from the empty dictionary, and the document.
\<close>

definition convert_csv_to_json ::
  "(string \<Rightarrow> 'v option) \<Rightarrow> string list list \<Rightarrow> error + 'v document" where
  "convert_csv_to_json pyfloat rows =
     (case rows of
        [] \<Rightarrow> Inl IndexError
      | header # data \<Rightarrow>
          (case rows_loop pyfloat (tl header) 0 data [] of
             Inl e \<Rightarrow> Inl e
           | Inr cs \<Rightarrow> Inr \<lparr>nodes = tl header, correlations = cs\<rparr>))"

text \<open>
  The whole run on the rows read from the input file: \<open>out_file\<close> is the content of
  \<^verbatim>\<open>correl_data.json\<close> before the run (\<open>None\<close> when the file does not exist). The file
  is opened for writing only after the loops, lines 41 and 42, so an exception leaves
  it as it was. The result is the exception raised, if any, and the file after the
  run; the content of the file is the document, not its JSON text. Reading the input
  file (lines 6 to 8) and the two \<^verbatim>\<open>print\<close> calls that follow the writing are outside
  the model.
\<close>

definition main ::
  "(string \<Rightarrow> 'v option) \<Rightarrow> string list list \<Rightarrow> 'v document option
     \<Rightarrow> error option \<times> 'v document option" where
  "main pyfloat rows out_file =
     (case convert_csv_to_json pyfloat rows of
        Inl e \<Rightarrow> (Some e, out_file)
      | Inr doc \<Rightarrow> (None, Some doc))"

subsection \<open>Notions used to state the properties\<close>

text \<open>
  The inner loop seen from the row's own dictionary: the same tests in the same order
  as \<open>cell_step\<close>, on the dictionary \<^verbatim>\<open>correlations[node_name]\<close> alone. It is related to
  \<open>cells_loop\<close> by the lemma \<open>cells_loop_inner\<close> below.
\<close>

fun inner_loop ::
  "(string \<Rightarrow> 'v option) \<Rightarrow> string list \<Rightarrow> nat \<Rightarrow> nat \<Rightarrow> string list
     \<Rightarrow> 'v inner_dict \<Rightarrow> error + 'v inner_dict" where
  "inner_loop pyfloat headers i j [] d = Inr d"
| "inner_loop pyfloat headers i j (value # rest) d =
     (if nonblank value then
        (case pyfloat value of
           None \<Rightarrow> inner_loop pyfloat headers i (Suc j) rest d
         | Some corr_value \<Rightarrow>
             if j < length headers then
               (if j > i then
                  inner_loop pyfloat headers i (Suc j) rest
                    (AList.update (headers ! j) corr_value d)
                else inner_loop pyfloat headers i (Suc j) rest d)
             else Inl IndexError)
      else inner_loop pyfloat headers i (Suc j) rest d)"

text \<open>
  The position of the first occurrence of \<open>x\<close> in a list, as \<^verbatim>\<open>list.index\<close> finds it (the
  length of the list when \<open>x\<close> does not occur, where Python raises).
\<close>

fun index_of :: "'a list \<Rightarrow> 'a \<Rightarrow> nat" where
  "index_of [] x = 0"
| "index_of (y # ys) x = (if y = x then 0 else Suc (index_of ys x))"

text \<open>A row filled up with empty cells to \<open>n\<close> cells; a row of \<open>n\<close> cells or more is kept.\<close>

definition pad_row :: "nat \<Rightarrow> string list \<Rightarrow> string list" where
  "pad_row n row = row @ replicate (n - length row) []"

subsection \<open>A reference parser for plain decimal literals\<close>

text \<open>
  An instance of the parameter \<open>pyfloat\<close> for concrete runs: it accepts an optional sign,
  digits, and an optional point followed by digits, between optional whitespace, and
  returns the exact rational value of the literal. On these literals \<^verbatim>\<open>float\<close> succeeds
  too (and rounds the value to the nearest double); on text that is no number, such as
  \<^verbatim>\<open>n/a\<close>, both fail. It is narrower than \<^verbatim>\<open>float\<close>, which also accepts exponents,
  underscores between digits, \<^verbatim>\<open>inf\<close> and \<^verbatim>\<open>nan\<close>; the concrete runs below use plain
  literals only.
\<close>

definition digit_val :: "char \<Rightarrow> nat option" where
  "digit_val c =
     (let n = (of_char c :: nat) in if 48 \<le> n \<and> n \<le> 57 then Some (n - 48) else None)"

fun digits_val :: "nat \<Rightarrow> string \<Rightarrow> nat option" where
  "digits_val acc [] = Some acc"
| "digits_val acc (c # s) =
     (case digit_val c of None \<Rightarrow> None | Some d \<Rightarrow> digits_val (10 * acc + d) s)"

definition unsigned_dec :: "string \<Rightarrow> rat option" where
  "unsigned_dec u =
     (let ip = takeWhile (\<lambda>c. c \<noteq> CHR ''.'') u;
          fp = drop 1 (dropWhile (\<lambda>c. c \<noteq> CHR ''.'') u)
      in if ip = [] \<and> fp = [] then None
         else (case digits_val 0 ip of
                 None \<Rightarrow> None
               | Some a \<Rightarrow>
                   (case digits_val 0 fp of
                      None \<Rightarrow> None
                    | Some b \<Rightarrow> Some (of_nat a + of_nat b / 10 ^ length fp))))"

definition dec_float :: "string \<Rightarrow> rat option" where
  "dec_float s =
     (case strip s of
        [] \<Rightarrow> None
      | c # r \<Rightarrow>
          if c = CHR ''-'' then map_option uminus (unsigned_dec r)
          else if c = CHR ''+'' then unsigned_dec r
          else unsigned_dec (c # r))"

section \<open>Properties of the steps and the loops\<close>

lemma nonblank_iff: "nonblank value \<longleftrightarrow> (\<exists>c\<in>set value. \<not> isspace c)"
proof -
  have a: "dropWhile P xs \<noteq> [] \<longleftrightarrow> (\<exists>x\<in>set xs. \<not> P x)" for P and xs :: "'a list"
    by (simp add: dropWhile_eq_Nil_conv)
  have "(\<exists>x\<in>set (dropWhile isspace value). \<not> isspace x) \<longleftrightarrow> (\<exists>x\<in>set value. \<not> isspace x)"
    by (induction "value") auto
  then show ?thesis
    unfolding nonblank_def strip_def by (auto simp: a)
qed

lemma cell_step_skip:
  "\<not> nonblank value \<or> pyfloat value = None \<or> (j \<le> i \<and> j < length headers)
     \<Longrightarrow> cell_step pyfloat headers node_name i j value cs = Inr cs"
  by (auto simp: cell_step_def split: option.splits)

lemma cell_step_store:
  "nonblank value \<Longrightarrow> pyfloat value = Some x \<Longrightarrow> i < j \<Longrightarrow> j < length headers
     \<Longrightarrow> map_of cs node_name = Some d
     \<Longrightarrow> cell_step pyfloat headers node_name i j value cs
         = Inr (AList.update node_name (AList.update (headers ! j) x d) cs)"
  by (simp add: cell_step_def)

lemma cell_step_index_error:
  "nonblank value \<Longrightarrow> pyfloat value = Some x \<Longrightarrow> length headers \<le> j
     \<Longrightarrow> cell_step pyfloat headers node_name i j value cs = Inl IndexError"
  by (simp add: cell_step_def)

lemma cells_loop_inner:
  "map_of cs node_name = Some d \<Longrightarrow>
   cells_loop pyfloat headers node_name i j cells cs =
     (case inner_loop pyfloat headers i j cells d of
        Inl e \<Rightarrow> Inl e
      | Inr d' \<Rightarrow> Inr (AList.update node_name d' cs))"
proof (induction cells arbitrary: j cs d)
  case Nil
  then show ?case by (simp add: AList.update_triv)
next
  case (Cons v rest)
  show ?case
  proof (cases "nonblank v \<and> pyfloat v \<noteq> None \<and> \<not> (j \<le> i \<and> j < length headers)")
    case False
    then have "cell_step pyfloat headers node_name i j v cs = Inr cs"
      by (intro cell_step_skip) auto
    with False Cons show ?thesis by (auto split: option.splits)
  next
    case True
    then obtain x where x: "pyfloat v = Some x" by auto
    show ?thesis
    proof (cases "j < length headers")
      case False
      with True x show ?thesis by (simp add: cell_step_index_error)
    next
      case inb: True
      with True have ij: "i < j" by auto
      let ?d1 = "AList.update (headers ! j) x d"
      let ?cs1 = "AList.update node_name ?d1 cs"
      have st: "cell_step pyfloat headers node_name i j v cs = Inr ?cs1"
        using True x ij inb Cons.prems by (simp add: cell_step_store)
      have m: "map_of ?cs1 node_name = Some ?d1" by (simp add: AList.update_conv')
      show ?thesis
        using True x ij inb st Cons.IH [OF m, of "Suc j"]
        by (simp split: sum.splits)
    qed
  qed
qed

lemma row_step_inner:
  "row_step pyfloat headers i (node_name # cells) cs =
     (case inner_loop pyfloat headers i 0 cells [] of
        Inl e \<Rightarrow> Inl e
      | Inr d \<Rightarrow> Inr (AList.update node_name d cs))"
proof -
  have "map_of (AList.update node_name [] cs) node_name = Some []"
    by (simp add: AList.update_conv')
  from cells_loop_inner [OF this] show ?thesis
    by (simp add: row_step_def split: sum.splits)
qed


lemma set_update_subset: "set (AList.update k v al) \<subseteq> insert (k, v) (set al)"
  by (induction al) auto

lemma inner_loop_error: "inner_loop pyfloat headers i j cells d = Inl e \<Longrightarrow> e = IndexError"
  by (induction cells arbitrary: j d) (auto split: if_splits option.splits)

lemma inner_loop_bounds:
  "inner_loop pyfloat headers i j cells d = Inr d' \<Longrightarrow> k < length cells
     \<Longrightarrow> nonblank (cells ! k) \<Longrightarrow> pyfloat (cells ! k) = Some x
     \<Longrightarrow> j + k < length headers"
proof (induction cells arbitrary: j d k)
  case Nil
  then show ?case by simp
next
  case (Cons v rest)
  show ?case
  proof (cases k)
    case 0
    with Cons.prems show ?thesis by (auto split: if_splits)
  next
    case (Suc k')
    from Cons.prems obtain d1 where "inner_loop pyfloat headers i (Suc j) rest d1 = Inr d'"
      by (auto split: if_splits option.splits)
    from Cons.IH [OF this, of k'] Cons.prems Suc show ?thesis by simp
  qed
qed

lemma inner_loop_origin:
  "inner_loop pyfloat headers i j cells d = Inr d' \<Longrightarrow> (b, v) \<in> set d'
     \<Longrightarrow> (b, v) \<in> set d \<or>
         (\<exists>k<length cells. i < j + k \<and> j + k < length headers \<and> b = headers ! (j + k)
            \<and> nonblank (cells ! k) \<and> pyfloat (cells ! k) = Some v)"
proof (induction cells arbitrary: j d)
  case Nil
  then show ?case by simp
next
  case (Cons c rest)
  from Cons.prems(1) obtain d1 where
    run: "inner_loop pyfloat headers i (Suc j) rest d1 = Inr d'" and
    d1: "d1 = d \<or> (\<exists>x. nonblank c \<and> pyfloat c = Some x \<and> i < j \<and> j < length headers
            \<and> d1 = AList.update (headers ! j) x d)"
    by (auto split: if_splits option.splits)
  from Cons.IH [OF run Cons.prems(2)] consider
    (old) "(b, v) \<in> set d1"
    | (later) k where "k < length rest" "i < Suc j + k" "Suc j + k < length headers"
        "b = headers ! (Suc j + k)" "nonblank (rest ! k)" "pyfloat (rest ! k) = Some v"
    by blast
  then show ?case
  proof cases
    case old
    from d1 show ?thesis
    proof
      assume "d1 = d"
      with old show ?thesis by simp
    next
      assume "\<exists>x. nonblank c \<and> pyfloat c = Some x \<and> i < j \<and> j < length headers
            \<and> d1 = AList.update (headers ! j) x d"
      then obtain x where x: "nonblank c" "pyfloat c = Some x" "i < j" "j < length headers"
        "d1 = AList.update (headers ! j) x d" by blast
      with old set_update_subset [of "headers ! j" x d]
      have "(b, v) = (headers ! j, x) \<or> (b, v) \<in> set d" by auto
      then show ?thesis
      proof
        assume "(b, v) = (headers ! j, x)"
        with x have "0 < length (c # rest) \<and> i < j + 0 \<and> j + 0 < length headers
          \<and> b = headers ! (j + 0) \<and> nonblank ((c # rest) ! 0) \<and> pyfloat ((c # rest) ! 0) = Some v"
          by simp
        then show ?thesis by blast
      next
        assume "(b, v) \<in> set d"
        then show ?thesis by simp
      qed
    qed
  next
    case later
    then have "Suc k < length (c # rest) \<and> i < j + Suc k \<and> j + Suc k < length headers
          \<and> b = headers ! (j + Suc k) \<and> nonblank ((c # rest) ! Suc k)
          \<and> pyfloat ((c # rest) ! Suc k) = Some v"
      by simp
    then show ?thesis by blast
  qed
qed

lemma inner_loop_total:
  "j + length cells \<le> length headers \<Longrightarrow> \<exists>d'. inner_loop pyfloat headers i j cells d = Inr d'"
  by (induction cells arbitrary: j d) (auto split: option.splits)

lemma inner_loop_blanks: "inner_loop pyfloat headers i j (replicate m []) d = Inr d"
  by (induction m arbitrary: j) (auto simp: nonblank_def)

lemma inner_loop_pad:
  "inner_loop pyfloat headers i j (cells @ replicate m []) d = inner_loop pyfloat headers i j cells d"
  by (induction cells arbitrary: j d) (auto simp: inner_loop_blanks split: option.splits)


lemma row_step_error: "row_step pyfloat headers i row cs = Inl e \<Longrightarrow> e = IndexError"
proof (cases row)
  case Nil
  then show "row_step pyfloat headers i row cs = Inl e \<Longrightarrow> e = IndexError"
    by (simp add: row_step_def)
next
  case (Cons node_name cells)
  then show "row_step pyfloat headers i row cs = Inl e \<Longrightarrow> e = IndexError"
    by (auto simp: row_step_inner split: sum.splits dest: inner_loop_error)
qed

lemma row_step_ok:
  assumes "row_step pyfloat headers i row cs = Inr cs'"
  obtains node_name cells d where "row = node_name # cells"
    and "inner_loop pyfloat headers i 0 cells [] = Inr d"
    and "cs' = AList.update node_name d cs"
proof (cases row)
  case Nil
  with assms show ?thesis by (simp add: row_step_def)
next
  case (Cons node_name cells)
  with assms that show ?thesis
    by (auto simp: row_step_inner split: sum.splits)
qed

lemma rows_loop_error: "rows_loop pyfloat headers i rows cs = Inl e \<Longrightarrow> e = IndexError"
  by (induction rows arbitrary: i cs) (auto split: sum.splits dest: row_step_error)

lemma rows_loop_ok_rows:
  "rows_loop pyfloat headers i rows cs = Inr cs' \<Longrightarrow> k < length rows
     \<Longrightarrow> \<exists>node_name cells d. rows ! k = node_name # cells
           \<and> inner_loop pyfloat headers (i + k) 0 cells [] = Inr d"
proof (induction rows arbitrary: i cs k)
  case Nil
  then show ?case by simp
next
  case (Cons row rest)
  from Cons.prems(1) obtain cs1 where
    st: "row_step pyfloat headers i row cs = Inr cs1" and
    run: "rows_loop pyfloat headers (Suc i) rest cs1 = Inr cs'"
    by (auto split: sum.splits)
  show ?case
  proof (cases k)
    case 0
    from st show ?thesis by (rule row_step_ok) (use 0 in simp)
  next
    case (Suc k')
    with Cons.IH [OF run, of k'] Cons.prems(2) show ?thesis by simp
  qed
qed

lemma rows_loop_keys:
  "rows_loop pyfloat headers i rows cs = Inr cs'
     \<Longrightarrow> fst ` set cs' = fst ` set cs \<union> hd ` set rows"
proof (induction rows arbitrary: i cs)
  case Nil
  then show ?case by simp
next
  case (Cons row rest)
  from Cons.prems obtain cs1 where
    st: "row_step pyfloat headers i row cs = Inr cs1" and
    run: "rows_loop pyfloat headers (Suc i) rest cs1 = Inr cs'"
    by (auto split: sum.splits)
  from st have "fst ` set cs1 = insert (hd row) (fst ` set cs)"
    by (rule row_step_ok) (simp add: AList.dom_update)
  with Cons.IH [OF run] show ?case by auto
qed

lemma rows_loop_distinct:
  "rows_loop pyfloat headers i rows cs = Inr cs' \<Longrightarrow> distinct (map fst cs)
     \<Longrightarrow> distinct (map fst cs')"
proof (induction rows arbitrary: i cs)
  case Nil
  then show ?case by simp
next
  case (Cons row rest)
  from Cons.prems(1) obtain cs1 where
    st: "row_step pyfloat headers i row cs = Inr cs1" and
    run: "rows_loop pyfloat headers (Suc i) rest cs1 = Inr cs'"
    by (auto split: sum.splits)
  from st Cons.prems(2) have "distinct (map fst cs1)"
    by (auto elim!: row_step_ok intro: AList.distinct_update)
  with Cons.IH [OF run] show ?case .
qed

lemma rows_loop_origin:
  "rows_loop pyfloat headers i rows cs = Inr cs' \<Longrightarrow> (a, d) \<in> set cs'
     \<Longrightarrow> (a, d) \<in> set cs \<or>
         (\<exists>k<length rows. \<exists>cells. rows ! k = a # cells
            \<and> inner_loop pyfloat headers (i + k) 0 cells [] = Inr d)"
proof (induction rows arbitrary: i cs)
  case Nil
  then show ?case by simp
next
  case (Cons row rest)
  from Cons.prems(1) obtain cs1 where
    st: "row_step pyfloat headers i row cs = Inr cs1" and
    run: "rows_loop pyfloat headers (Suc i) rest cs1 = Inr cs'"
    by (auto split: sum.splits)
  from Cons.IH [OF run Cons.prems(2)] consider
    (old) "(a, d) \<in> set cs1"
    | (later) k cells where "k < length rest" "rest ! k = a # cells"
        "inner_loop pyfloat headers (Suc i + k) 0 cells [] = Inr d"
    by blast
  then show ?case
  proof cases
    case old
    from st obtain node_name cells d1 where
      row: "row = node_name # cells" and
      d1: "inner_loop pyfloat headers i 0 cells [] = Inr d1" and
      cs1: "cs1 = AList.update node_name d1 cs"
      by (rule row_step_ok)
    from old cs1 set_update_subset [of node_name d1 cs]
    have "(a, d) = (node_name, d1) \<or> (a, d) \<in> set cs" by auto
    then show ?thesis
    proof
      assume "(a, d) = (node_name, d1)"
      with row d1 have "0 < length (row # rest) \<and> (row # rest) ! 0 = a # cells
          \<and> inner_loop pyfloat headers (i + 0) 0 cells [] = Inr d"
        by simp
      then show ?thesis by blast
    next
      assume "(a, d) \<in> set cs"
      then show ?thesis by simp
    qed
  next
    case later
    then have "Suc k < length (row # rest) \<and> (row # rest) ! Suc k = a # cells
        \<and> inner_loop pyfloat headers (i + Suc k) 0 cells [] = Inr d"
      by simp
    then show ?thesis by blast
  qed
qed

lemma rows_loop_other:
  "rows_loop pyfloat headers i rows cs = Inr cs' \<Longrightarrow> \<forall>row\<in>set rows. hd row \<noteq> n
     \<Longrightarrow> map_of cs' n = map_of cs n"
proof (induction rows arbitrary: i cs)
  case Nil
  then show ?case by simp
next
  case (Cons row rest)
  from Cons.prems(1) obtain cs1 where
    st: "row_step pyfloat headers i row cs = Inr cs1" and
    run: "rows_loop pyfloat headers (Suc i) rest cs1 = Inr cs'"
    by (auto split: sum.splits)
  from st Cons.prems(2) have "map_of cs1 n = map_of cs n"
    by (auto elim!: row_step_ok simp: AList.update_conv')
  with Cons.IH [OF run] Cons.prems(2) show ?case by simp
qed

lemma rows_loop_last:
  "rows_loop pyfloat headers i rows cs = Inr cs' \<Longrightarrow> k < length rows
     \<Longrightarrow> rows ! k = n # cells
     \<Longrightarrow> \<forall>m. k < m \<and> m < length rows \<longrightarrow> hd (rows ! m) \<noteq> n
     \<Longrightarrow> \<exists>d. inner_loop pyfloat headers (i + k) 0 cells [] = Inr d \<and> map_of cs' n = Some d"
proof (induction rows arbitrary: i cs k)
  case Nil
  then show ?case by simp
next
  case (Cons row rest)
  from Cons.prems(1) obtain cs1 where
    st: "row_step pyfloat headers i row cs = Inr cs1" and
    run: "rows_loop pyfloat headers (Suc i) rest cs1 = Inr cs'"
    by (auto split: sum.splits)
  show ?case
  proof (cases k)
    case 0
    with Cons.prems(3) have row: "row = n # cells" by simp
    from st row obtain d where
      d: "inner_loop pyfloat headers i 0 cells [] = Inr d" and
      cs1: "cs1 = AList.update n d cs"
      by (auto elim!: row_step_ok)
    have "\<forall>r\<in>set rest. hd r \<noteq> n"
    proof
      fix r assume "r \<in> set rest"
      then obtain m where "m < length rest" "rest ! m = r" by (auto simp: in_set_conv_nth)
      with Cons.prems(4) [rule_format, of "Suc m"] 0 show "hd r \<noteq> n" by simp
    qed
    from rows_loop_other [OF run this] cs1 have "map_of cs' n = Some d"
      by (simp add: AList.update_conv')
    with d 0 show ?thesis by simp
  next
    case (Suc k')
    have "\<forall>m. k' < m \<and> m < length rest \<longrightarrow> hd (rest ! m) \<noteq> n"
    proof (intro allI impI)
      fix m assume "k' < m \<and> m < length rest"
      with Cons.prems(4) [rule_format, of "Suc m"] Suc show "hd (rest ! m) \<noteq> n" by simp
    qed
    moreover have "k' < length rest" and "rest ! k' = n # cells"
      using Cons.prems(2,3) Suc by simp_all
    ultimately have "\<exists>d. inner_loop pyfloat headers (Suc i + k') 0 cells [] = Inr d
        \<and> map_of cs' n = Some d"
      using Cons.IH [OF run] by blast
    with Suc show ?thesis by simp
  qed
qed

lemma rows_loop_total:
  "\<forall>row\<in>set rows. row \<noteq> [] \<and> length (tl row) \<le> length headers
     \<Longrightarrow> \<exists>cs'. rows_loop pyfloat headers i rows cs = Inr cs'"
proof (induction rows arbitrary: i cs)
  case Nil
  then show ?case by simp
next
  case (Cons row rest)
  then obtain node_name cells where row: "row = node_name # cells"
    and len: "length cells \<le> length headers"
    by (cases row) auto
  from inner_loop_total [of 0 cells headers pyfloat i "[]"] len
  obtain d where "inner_loop pyfloat headers i 0 cells [] = Inr d" by auto
  with row Cons show ?case by (simp add: row_step_inner)
qed

lemma row_step_pad:
  "row \<noteq> [] \<Longrightarrow> row_step pyfloat headers i (pad_row m row) cs = row_step pyfloat headers i row cs"
  by (cases row) (simp_all add: pad_row_def row_step_inner inner_loop_pad)

lemma rows_loop_pad:
  "\<forall>row\<in>set rows. row \<noteq> []
     \<Longrightarrow> rows_loop pyfloat headers i (map (pad_row m) rows) cs = rows_loop pyfloat headers i rows cs"
  by (induction rows arbitrary: i cs) (simp_all add: row_step_pad split: sum.splits)

lemma index_of_nth: "distinct xs \<Longrightarrow> i < length xs \<Longrightarrow> index_of xs (xs ! i) = i"
proof (induction xs arbitrary: i)
  case Nil
  then show ?case by simp
next
  case (Cons x xs)
  then show ?case by (cases i) auto
qed

section \<open>Concrete runs\<close>

lemmas run_defs =
  convert_csv_to_json_def main_def row_step_def cell_step_def nonblank_def strip_def isspace_def

lemmas dec_defs = dec_float_def unsigned_dec_def digit_val_def

lemma dec_float_samples:
  "dec_float ''0.5'' = Some (1 / 2)" "dec_float ''0.2'' = Some (1 / 5)"
  "dec_float ''0.9'' = Some (9 / 10)" "dec_float ''1'' = Some 1"
  "dec_float ''n/a'' = None"
  by (simp_all add: dec_defs strip_def isspace_def)

section \<open>The claims\<close>

text \<open>
  C1 (Scenario A). On the table with header \<^verbatim>\<open>,A,B,C\<close> and the rows \<^verbatim>\<open>A,,0.5,0.2\<close>,
  \<^verbatim>\<open>B,,,0.9\<close> and \<^verbatim>\<open>C,,,,\<close> the reducer returns the document with the nodes A, B, C
  and the correlations A: (B: 0.5, C: 0.2), B: (C: 0.9), C: (), in this order, where
  each number is what \<^verbatim>\<open>float\<close> returns for the cell's text.
\<close>

theorem scenario_A:
  assumes "pyfloat ''0.5'' = Some x" and "pyfloat ''0.2'' = Some y"
    and "pyfloat ''0.9'' = Some z"
  shows "convert_csv_to_json pyfloat
           [['''', ''A'', ''B'', ''C''], [''A'', '''', ''0.5'', ''0.2''],
            [''B'', '''', '''', ''0.9''], [''C'', '''', '''', '''', '''']]
         = Inr \<lparr>nodes = [''A'', ''B'', ''C''],
                correlations = [(''A'', [(''B'', x), (''C'', y)]), (''B'', [(''C'', z)]),
                                (''C'', [])]\<rparr>"
  using assms by (simp add: run_defs)

theorem scenario_A_witness:
  "dec_float ''0.5'' = Some (1 / 2) \<and> dec_float ''0.2'' = Some (1 / 5)
   \<and> dec_float ''0.9'' = Some (9 / 10)
   \<and> convert_csv_to_json dec_float
           [['''', ''A'', ''B'', ''C''], [''A'', '''', ''0.5'', ''0.2''],
            [''B'', '''', '''', ''0.9''], [''C'', '''', '''', '''', '''']]
         = Inr \<lparr>nodes = [''A'', ''B'', ''C''],
                correlations = [(''A'', [(''B'', 1 / 2), (''C'', 1 / 5)]),
                                (''B'', [(''C'', 9 / 10)]), (''C'', [])]\<rparr>"
proof -
  note s = dec_float_samples(1-3)
  from scenario_A [OF s] s show ?thesis by simp
qed

text \<open>
  C2 (upper triangle only), as the claim states it. The triangle test compares the
  cell's position \<open>j\<close> with the data row's number \<open>i\<close>, not the places of the two names in
  \<open>nodes\<close>: on the table with header \<^verbatim>\<open>,A,B\<close> and the single row \<^verbatim>\<open>B,,1\<close> the cell at
  position 1 of row 0 is stored under the row's name B and the header name B, an entry
  with equal names.
\<close>

theorem upper_triangle_counterexample:
  "convert_csv_to_json dec_float [['''', ''A'', ''B''], [''B'', '''', ''1'']]
     = Inr \<lparr>nodes = [''A'', ''B''], correlations = [(''B'', [(''B'', 1)])]\<rparr>
   \<and> \<not> index_of [''A'', ''B''] ''B'' < index_of [''A'', ''B''] ''B''"
  by (simp add: run_defs dec_defs)

text \<open>
  C2, amended. When the node names are distinct and the data rows are named by them in
  order (row \<open>i\<close> carries the \<open>i\<close>-th node name, for as many rows as there are names), then
  on a run that completes every retained entry \<open>(a, b)\<close> has \<open>a\<close> strictly before \<open>b\<close> in
  \<open>nodes\<close>, no entry has equal names, and no entry is kept under \<open>correlations[a][b]\<close> when
  \<open>b\<close> is not after \<open>a\<close>, whatever the cells hold.
\<close>

theorem upper_triangle_aligned:
  assumes run: "convert_csv_to_json pyfloat (header # data) = Inr doc"
    and dist: "distinct (tl header)"
    and names: "take (length (tl header)) (map hd data) = take (length data) (tl header)"
  shows "(\<forall>(a, d)\<in>set (correlations doc). \<forall>(b, v)\<in>set d.
            index_of (nodes doc) a < index_of (nodes doc) b \<and> a \<noteq> b)
       \<and> (\<forall>a b d. index_of (nodes doc) b \<le> index_of (nodes doc) a
            \<and> map_of (correlations doc) a = Some d \<longrightarrow> map_of d b = None)"
proof -
  let ?h = "tl header"
  from run obtain cs where loop: "rows_loop pyfloat ?h 0 data [] = Inr cs"
    and doc: "doc = \<lparr>nodes = ?h, correlations = cs\<rparr>"
    by (auto simp: convert_csv_to_json_def split: sum.splits)
  have entry: "index_of ?h a < index_of ?h b \<and> a \<noteq> b"
    if ad: "(a, d) \<in> set cs" and bv: "(b, v) \<in> set d" for a d b v
  proof -
    from rows_loop_origin [OF loop ad] obtain k cells where
      k: "k < length data" and row: "data ! k = a # cells"
      and inner: "inner_loop pyfloat ?h k 0 cells [] = Inr d"
      by auto
    from inner_loop_origin [OF inner bv] obtain j where
      j: "k < j" "j < length ?h" and b: "b = ?h ! j"
      by auto
    from j have kh: "k < length ?h" by simp
    have "take (length ?h) (map hd data) ! k = take (length data) ?h ! k"
      by (simp only: names)
    with k kh row have a: "a = ?h ! k" by simp
    from dist kh have ia: "index_of ?h a = k" unfolding a by (rule index_of_nth)
    from dist j(2) have ib: "index_of ?h b = j" unfolding b by (rule index_of_nth)
    from dist kh j have "?h ! k \<noteq> ?h ! j" by (simp add: nth_eq_iff_index_eq)
    with ia ib j a b show ?thesis by simp
  qed
  have none: "map_of d b = None"
    if le: "index_of ?h b \<le> index_of ?h a" and m: "map_of cs a = Some d" for a b d
  proof (cases "map_of d b")
    case None
    then show ?thesis .
  next
    case (Some v)
    from m have "(a, d) \<in> set cs" by (rule map_of_SomeD)
    moreover from Some have "(b, v) \<in> set d" by (rule map_of_SomeD)
    ultimately have "index_of ?h a < index_of ?h b" using entry by blast
    with le show ?thesis by simp
  qed
  from entry none show ?thesis unfolding doc by auto
qed

theorem upper_triangle_aligned_witness:
  "convert_csv_to_json dec_float
       [['''', ''A'', ''B'', ''C''], [''A'', '''', ''0.5'', ''0.2''],
        [''B'', ''7'', '''', ''0.9''], [''C'', '''', '''', '''', '''']]
     = Inr \<lparr>nodes = [''A'', ''B'', ''C''],
            correlations = [(''A'', [(''B'', 1 / 2), (''C'', 1 / 5)]),
                            (''B'', [(''C'', 9 / 10)]), (''C'', [])]\<rparr>
   \<and> index_of [''A'', ''B'', ''C''] ''A'' < index_of [''A'', ''B'', ''C''] ''B''
   \<and> index_of [''A'', ''B'', ''C''] ''B'' < index_of [''A'', ''B'', ''C''] ''C''
   \<and> map_of [(''C'', 9 / 10 :: rat)] ''A'' = None"
proof -
  let ?header = "['''', ''A'', ''B'', ''C'']"
  let ?data = "[[''A'', '''', ''0.5'', ''0.2''], [''B'', ''7'', '''', ''0.9''],
                [''C'', '''', '''', '''', '''']]"
  let ?doc = "\<lparr>nodes = [''A'', ''B'', ''C''],
            correlations = [(''A'', [(''B'', 1 / 2 :: rat), (''C'', 1 / 5)]),
                            (''B'', [(''C'', 9 / 10)]), (''C'', [])]\<rparr>"
  have run: "convert_csv_to_json dec_float (?header # ?data) = Inr ?doc"
    by (simp add: run_defs dec_defs)
  have dist: "distinct (tl ?header)" by simp
  have names: "take (length (tl ?header)) (map hd ?data) = take (length ?data) (tl ?header)"
    by simp
  from upper_triangle_aligned [OF run dist names] run show ?thesis by simp
qed

text \<open>
  C3 (keys drawn from the nodes), as the claim states it. The outer keys are the first
  cells of the data rows, which nothing compares with the header: on the table with
  header \<^verbatim>\<open>,A\<close> and the single row \<^verbatim>\<open>Z\<close> the key Z is no node.
\<close>

theorem keys_in_nodes_counterexample:
  "convert_csv_to_json dec_float [['''', ''A''], [''Z'']]
     = Inr \<lparr>nodes = [''A''], correlations = [(''Z'', [])]\<rparr>
   \<and> ''Z'' \<notin> set [''A'']"
  by (simp add: run_defs)

text \<open>
  C3, amended. On a run that completes, every inner key is an element of \<open>nodes\<close>, and the
  outer keys are the first cells of the data rows; so every outer key is an element of
  \<open>nodes\<close> when every data row's first cell is one of the header's names.
\<close>

theorem keys_from_table:
  assumes run: "convert_csv_to_json pyfloat (header # data) = Inr doc"
  shows "(\<forall>(a, d)\<in>set (correlations doc). \<forall>(b, v)\<in>set d. b \<in> set (nodes doc))
       \<and> fst ` set (correlations doc) = hd ` set data
       \<and> ((\<forall>row\<in>set data. hd row \<in> set (nodes doc))
            \<longrightarrow> (\<forall>(a, d)\<in>set (correlations doc). a \<in> set (nodes doc)))"
proof -
  let ?h = "tl header"
  from run obtain cs where loop: "rows_loop pyfloat ?h 0 data [] = Inr cs"
    and doc: "doc = \<lparr>nodes = ?h, correlations = cs\<rparr>"
    by (auto simp: convert_csv_to_json_def split: sum.splits)
  have inner: "b \<in> set ?h" if ad: "(a, d) \<in> set cs" and bv: "(b, v) \<in> set d" for a d b v
  proof -
    from rows_loop_origin [OF loop ad] obtain k cells where
      "inner_loop pyfloat ?h k 0 cells [] = Inr d"
      by auto
    from inner_loop_origin [OF this bv] show ?thesis by auto
  qed
  from rows_loop_keys [OF loop] have keys: "fst ` set cs = hd ` set data" by simp
  have outer: "a \<in> set ?h"
    if all: "\<forall>row\<in>set data. hd row \<in> set ?h" and ad: "(a, d) \<in> set cs" for a d
  proof -
    from ad have "a \<in> fst ` set cs" by force
    with keys all show ?thesis by auto
  qed
  from inner keys outer show ?thesis unfolding doc by auto
qed

theorem keys_from_table_witness:
  "convert_csv_to_json dec_float
       [['''', ''A'', ''B''], [''A'', '''', ''0.5''], [''B'', '''', '''']]
     = Inr \<lparr>nodes = [''A'', ''B''],
            correlations = [(''A'', [(''B'', 1 / 2)]), (''B'', [])]\<rparr>
   \<and> hd [''A'', '''', ''0.5''] \<in> set [''A'', ''B'']
   \<and> hd [''B'', '''', ''''] \<in> set [''A'', ''B'']
   \<and> fst ` set [(''A'', [(''B'', 1 / 2 :: rat)]), (''B'', [])]
       = hd ` set [[''A'', '''', ''0.5''], [''B'', '''', '''']]"
proof -
  let ?header = "['''', ''A'', ''B'']"
  let ?data = "[[''A'', '''', ''0.5''], [''B'', '''', '''']]"
  let ?doc = "\<lparr>nodes = [''A'', ''B''],
            correlations = [(''A'', [(''B'', 1 / 2 :: rat)]), (''B'', [])]\<rparr>"
  have run: "convert_csv_to_json dec_float (?header # ?data) = Inr ?doc"
    by (simp add: run_defs dec_defs)
  from keys_from_table [OF run] run show ?thesis by simp
qed

text \<open>
  C4 (numeric cells at or below the diagonal), as the claim states it. The header is
  indexed on line 26, before the test \<open>j > i\<close> of line 29, and the handler of line 31
  catches \<^verbatim>\<open>ValueError\<close> only: a numeric cell with \<open>j \<le> i\<close> whose position is beyond the
  header raises \<^verbatim>\<open>IndexError\<close>. On the table with header \<^verbatim>\<open>,A\<close> and the rows \<^verbatim>\<open>A\<close> and
  \<^verbatim>\<open>B,,1\<close>, the cell \<^verbatim>\<open>1\<close> is at position 1 of row 1 and the header has one name.
\<close>

theorem lower_triangle_counterexample:
  "dec_float ''1'' = Some 1 \<and> (1::nat) \<le> 1
   \<and> cell_step dec_float [''A''] ''B'' 1 1 ''1'' [(''A'', []), (''B'', [])] = Inl IndexError
   \<and> main dec_float [['''', ''A''], [''A''], [''B'', '''', ''1'']] None
       = (Some IndexError, None)"
  by (simp add: run_defs dec_defs)

text \<open>
  C4, amended. A cell at position \<open>j\<close> of the data row \<open>i\<close> whose content parses as a
  number, with \<open>j \<le> i\<close> and \<open>j\<close> within the bounds of the header list, is discarded: no
  error is raised and the dictionary is left as it was.
\<close>

theorem lower_triangle_discarded:
  assumes "pyfloat value = Some x" and "j \<le> i" and "j < length headers"
  shows "cell_step pyfloat headers node_name i j value cs = Inr cs"
  using assms by (simp add: cell_step_def)

theorem lower_triangle_discarded_witness:
  "dec_float ''1'' = Some 1 \<and> (0::nat) \<le> 1 \<and> 0 < length [''A'', ''B'']
   \<and> cell_step dec_float [''A'', ''B''] ''B'' 1 0 ''1'' [(''A'', []), (''B'', [])]
       = Inr [(''A'', []), (''B'', [])]"
proof -
  have p: "dec_float ''1'' = Some 1" by (rule dec_float_samples)
  have le: "(0::nat) \<le> 1" by simp
  have inb: "0 < length [''A'', ''B'']" by simp
  from lower_triangle_discarded
    [of dec_float "''1''" 1 0 1 "[''A'', ''B'']" "''B''" "[(''A'', []), (''B'', [])]",
      OF p le inb] p
  show ?thesis by simp
qed

text \<open>
  C5 (lenient parsing). A cell that is empty or holds only whitespace, and a cell for
  which \<^verbatim>\<open>float\<close> raises \<^verbatim>\<open>ValueError\<close> (as it does for \<^verbatim>\<open>n/a\<close>), leave the dictionary as it
  was and raise nothing. A non-blank cell for which \<^verbatim>\<open>float\<close> returns \<open>x\<close>, at a position
  \<open>j\<close> above the diagonal and within the header, stores exactly \<open>x\<close> under the row's name
  and the header name \<open>headers[j]\<close>; the row's dictionary \<open>d\<close> is present, as line 20 has
  just stored it.
\<close>

theorem lenient_parsing:
  "(value = [] \<or> (\<forall>c\<in>set value. isspace c) \<or> pyfloat value = None
      \<longrightarrow> cell_step pyfloat headers node_name i j value cs = Inr cs)
   \<and> (pyfloat ''n/a'' = None
      \<longrightarrow> cell_step pyfloat headers node_name i j ''n/a'' cs = Inr cs)
   \<and> (nonblank value \<and> pyfloat value = Some x \<and> i < j \<and> j < length headers
      \<longrightarrow> cell_step pyfloat headers node_name i j value (AList.update node_name d cs)
          = Inr (AList.update node_name (AList.update (headers ! j) x d) cs)
        \<and> map_of (AList.update (headers ! j) x d) (headers ! j) = Some x)"
proof (intro conjI impI)
  assume "value = [] \<or> (\<forall>c\<in>set value. isspace c) \<or> pyfloat value = None"
  then have "\<not> nonblank value \<or> pyfloat value = None"
    by (auto simp: nonblank_iff)
  then show "cell_step pyfloat headers node_name i j value cs = Inr cs"
    by (auto intro: cell_step_skip)
next
  assume "pyfloat ''n/a'' = None"
  then show "cell_step pyfloat headers node_name i j ''n/a'' cs = Inr cs"
    by (auto intro: cell_step_skip)
next
  assume a: "nonblank value \<and> pyfloat value = Some x \<and> i < j \<and> j < length headers"
  have "map_of (AList.update node_name d cs) node_name = Some d"
    by (simp add: AList.update_conv')
  with a show "cell_step pyfloat headers node_name i j value (AList.update node_name d cs)
          = Inr (AList.update node_name (AList.update (headers ! j) x d) cs)"
    by (simp add: cell_step_store)
next
  show "map_of (AList.update (headers ! j) x d) (headers ! j) = Some x"
    by (simp add: AList.update_conv')
qed

theorem lenient_parsing_witness:
  "cell_step dec_float [''A'', ''B''] ''A'' 0 1 '' '' [(''A'', [])] = Inr [(''A'', [])]
   \<and> dec_float ''n/a'' = None
   \<and> cell_step dec_float [''A'', ''B''] ''A'' 0 1 ''n/a'' [(''A'', [])] = Inr [(''A'', [])]
   \<and> nonblank ''0.5'' \<and> dec_float ''0.5'' = Some (1 / 2)
   \<and> cell_step dec_float [''A'', ''B''] ''A'' 0 1 ''0.5'' [(''A'', [])]
       = Inr [(''A'', [(''B'', 1 / 2)])]"
proof -
  have sp: "\<forall>c\<in>set '' ''. isspace c" by (simp add: isspace_def)
  have na: "dec_float ''n/a'' = None" by (rule dec_float_samples)
  have nb: "nonblank ''0.5''" by (simp add: nonblank_def strip_def isspace_def)
  have p: "dec_float ''0.5'' = Some (1 / 2)" by (rule dec_float_samples)
  have b: "(0::nat) < 1 \<and> 1 < length [''A'', ''B'']" by simp
  from lenient_parsing [of "'' ''" dec_float "[''A'', ''B'']" "''A''" 0 1 "[(''A'', [])]"
      "1 / 2" "[]"] sp
  have 1: "cell_step dec_float [''A'', ''B''] ''A'' 0 1 '' '' [(''A'', [])] = Inr [(''A'', [])]"
    and 2: "cell_step dec_float [''A'', ''B''] ''A'' 0 1 ''n/a'' [(''A'', [])] = Inr [(''A'', [])]"
    using na by blast+
  from lenient_parsing [of "''0.5''" dec_float "[''A'', ''B'']" "''A''" 0 1 "[(''A'', [])]"
      "1 / 2" "[]"] nb p b
  have 3: "cell_step dec_float [''A'', ''B''] ''A'' 0 1 ''0.5'' [(''A'', [])]
       = Inr [(''A'', [(''B'', 1 / 2)])]"
    by simp
  from 1 2 3 na nb p show ?thesis by simp
qed

text \<open>
  C6 (Scenario D, shape error). A table with a data row of zero cells, or with a data
  row \<open>i\<close> holding a numeric cell at a position \<open>j > i\<close> that is beyond the header list,
  fails with \<open>IndexError\<close>, the exception that the specification names
  \<^verbatim>\<open>InputShapeError\<close>, and the output file is left as it was before the run: none is
  produced. (The failure may come from an earlier row; it is an \<open>IndexError\<close> too.)
\<close>

theorem shape_error:
  assumes "i < length data"
    and "data ! i = [] \<or>
         (\<exists>j. j < length (tl (data ! i)) \<and> nonblank (tl (data ! i) ! j)
              \<and> pyfloat (tl (data ! i) ! j) \<noteq> None \<and> i < j \<and> length (tl header) \<le> j)"
  shows "main pyfloat (header # data) out_file = (Some IndexError, out_file)"
proof (cases "rows_loop pyfloat (tl header) 0 data []")
  case (Inl e)
  then have "e = IndexError" by (rule rows_loop_error)
  with Inl show ?thesis by (simp add: main_def convert_csv_to_json_def)
next
  case (Inr cs)
  from rows_loop_ok_rows [OF Inr assms(1)] obtain node_name cells d where
    row: "data ! i = node_name # cells" and
    inner: "inner_loop pyfloat (tl header) i 0 cells [] = Inr d"
    by auto
  from row assms(2) obtain j x where j: "j < length cells" "nonblank (cells ! j)"
    "pyfloat (cells ! j) = Some x" "length (tl header) \<le> j"
    by auto
  from inner_loop_bounds [OF inner j(1-3)] j(4) have False by simp
  then show ?thesis ..
qed

theorem shape_error_witness:
  "(0::nat) < length [[''A'', '''', ''1'']]
   \<and> nonblank ''1'' \<and> dec_float ''1'' \<noteq> None \<and> (0::nat) < 1 \<and> length [''A''] \<le> 1
   \<and> main dec_float [['''', ''A''], [''A'', '''', ''1'']] None = (Some IndexError, None)
   \<and> main dec_float [['''', ''A''], []] None = (Some IndexError, None)"
proof -
  let ?data = "[[''A'', '''', ''1'']]"
  have len: "0 < length ?data" by simp
  have nb: "nonblank ''1''" by (simp add: nonblank_def strip_def isspace_def)
  have p: "dec_float ''1'' \<noteq> None" by (simp add: dec_float_samples)
  have cell: "?data ! 0 = [] \<or>
      (\<exists>j. j < length (tl (?data ! 0)) \<and> nonblank (tl (?data ! 0) ! j)
           \<and> dec_float (tl (?data ! 0) ! j) \<noteq> None \<and> 0 < j
           \<and> length (tl ['''', ''A'']) \<le> j)"
    using nb p by (intro disjI2 exI [of _ 1]) simp
  have len2: "0 < length [[] :: string list]" by simp
  have empty: "[[] :: string list] ! 0 = [] \<or>
      (\<exists>j. j < length (tl ([[] :: string list] ! 0)) \<and> nonblank (tl ([[]] ! 0) ! j)
           \<and> dec_float (tl ([[]] ! 0) ! j) \<noteq> None \<and> 0 < j
           \<and> length (tl ['''', ''A'']) \<le> j)"
    by simp
  from shape_error [OF len cell, of None] shape_error [OF len2 empty, of None] nb p
  show ?thesis by simp
qed

text \<open>
  C7 (ragged rows). On a table whose data rows are all non-empty and have no more
  cells than the header row, the run completes without error and writes a document.
  The missing trailing cells of a short row yield nothing: the document is the one
  obtained from the table with every short row filled up with empty cells to the
  header's length.
\<close>

theorem ragged_rows_complete:
  assumes "\<forall>row\<in>set data. row \<noteq> [] \<and> length row \<le> length header"
  shows "\<exists>doc. main pyfloat (header # data) out_file = (None, Some doc)
           \<and> convert_csv_to_json pyfloat (header # data) = Inr doc
           \<and> convert_csv_to_json pyfloat (header # map (pad_row (length header)) data)
               = Inr doc"
proof -
  have "\<forall>row\<in>set data. row \<noteq> [] \<and> length (tl row) \<le> length (tl header)"
  proof
    fix row assume "row \<in> set data"
    with assms have "row \<noteq> []" "length row \<le> length header" by auto
    then show "row \<noteq> [] \<and> length (tl row) \<le> length (tl header)" by simp
  qed
  from rows_loop_total [OF this] obtain cs where
    loop: "rows_loop pyfloat (tl header) 0 data [] = Inr cs"
    by blast
  from assms have ne: "\<forall>row\<in>set data. row \<noteq> []" by simp
  have "rows_loop pyfloat (tl header) 0 (map (pad_row (length header)) data) [] = Inr cs"
    unfolding rows_loop_pad [OF ne] by (rule loop)
  with loop show ?thesis by (simp add: main_def convert_csv_to_json_def)
qed

theorem ragged_rows_complete_witness:
  "length [''A'', '''', ''0.5''] \<le> length ['''', ''A'', ''B'']
   \<and> length [''B''] \<le> length ['''', ''A'', ''B'']
   \<and> main dec_float [['''', ''A'', ''B''], [''A'', '''', ''0.5''], [''B'']] None
       = (None, Some \<lparr>nodes = [''A'', ''B''],
                      correlations = [(''A'', [(''B'', 1 / 2)]), (''B'', [])]\<rparr>)
   \<and> convert_csv_to_json dec_float [['''', ''A'', ''B''], [''A'', '''', ''0.5''], [''B'', '''', '''']]
       = Inr \<lparr>nodes = [''A'', ''B''],
              correlations = [(''A'', [(''B'', 1 / 2)]), (''B'', [])]\<rparr>"
proof -
  let ?header = "['''', ''A'', ''B'']"
  let ?data = "[[''A'', '''', ''0.5''], [''B'']]"
  have h: "\<forall>row\<in>set ?data. row \<noteq> [] \<and> length row \<le> length ?header" by simp
  have run: "main dec_float (?header # ?data) None
       = (None, Some \<lparr>nodes = [''A'', ''B''],
                      correlations = [(''A'', [(''B'', 1 / 2)]), (''B'', [])]\<rparr>)"
    by (simp add: run_defs dec_defs)
  from ragged_rows_complete [OF h, of dec_float None] run
  show ?thesis by (simp add: pad_row_def)
qed

text \<open>
  C8 (determinism). The run depends on the table alone: whatever the output file held
  before, two runs on the same table raise the same exception or write the same
  document (the same nodes, the same outer and inner dictionaries with the same keys
  in the same order and the same values), and a second run after the first changes
  nothing.
\<close>

theorem rerun_same_document:
  "fst (main pyfloat rows file1) = fst (main pyfloat rows file2)
   \<and> (fst (main pyfloat rows file1) = None
        \<longrightarrow> snd (main pyfloat rows file1) = snd (main pyfloat rows file2))
   \<and> main pyfloat rows (snd (main pyfloat rows file1)) = main pyfloat rows file1"
  by (simp add: main_def split: sum.splits)

theorem rerun_same_document_witness:
  "fst (main dec_float [['''', ''A'', ''B''], [''A'', '''', ''0.5''], [''B'']] None) = None
   \<and> snd (main dec_float [['''', ''A'', ''B''], [''A'', '''', ''0.5''], [''B'']] None)
       = snd (main dec_float [['''', ''A'', ''B''], [''A'', '''', ''0.5''], [''B'']]
                (Some \<lparr>nodes = [], correlations = []\<rparr>))"
proof -
  let ?rows = "[['''', ''A'', ''B''], [''A'', '''', ''0.5''], [''B'']]"
  have ok: "fst (main dec_float ?rows None) = None"
    by (simp add: run_defs dec_defs)
  from rerun_same_document [of dec_float ?rows None "Some \<lparr>nodes = [], correlations = []\<rparr>"] ok
  show ?thesis by blast
qed

lemma count_list_distinct: "distinct xs \<Longrightarrow> x \<in> set xs \<Longrightarrow> count_list xs x = 1"
  by (induction xs) (auto simp: count_list_0_iff)

text \<open>
  C9 (round-trip shape), as the claim states it. The slice \<^verbatim>\<open>rows[0][1:]\<close> of a header
  row without cells is the empty list: on the table whose only row is empty the run
  completes with no node, and 0 is not the number of header cells minus 1.
\<close>

theorem round_trip_shape_counterexample:
  "convert_csv_to_json dec_float [[]] = Inr \<lparr>nodes = [], correlations = []\<rparr>
   \<and> int (length ([] :: string list)) \<noteq> int (length ([] :: string list)) - 1"
  by (simp add: run_defs)

text \<open>
  C9, amended. For every input table whose header row has at least one cell, on a run
  that completes: the length of \<open>nodes\<close> is the number of header cells minus 1, the set
  of outer keys of \<open>correlations\<close> is the set of the first cells of the data rows, and
  every data row has exactly one inner dictionary under its first cell.
\<close>

theorem round_trip_shape:
  assumes run: "convert_csv_to_json pyfloat (header # data) = Inr doc"
    and cells: "header \<noteq> []"
  shows "int (length (nodes doc)) = int (length header) - 1
       \<and> fst ` set (correlations doc) = hd ` set data
       \<and> (\<forall>row\<in>set data. \<exists>!d. (hd row, d) \<in> set (correlations doc))"
proof -
  let ?h = "tl header"
  from run obtain cs where loop: "rows_loop pyfloat ?h 0 data [] = Inr cs"
    and doc: "doc = \<lparr>nodes = ?h, correlations = cs\<rparr>"
    by (auto simp: convert_csv_to_json_def split: sum.splits)
  from cells have len: "int (length ?h) = int (length header) - 1"
    by (cases header) simp_all
  from rows_loop_keys [OF loop] have keys: "fst ` set cs = hd ` set data" by simp
  from rows_loop_distinct [OF loop] have dist: "distinct (map fst cs)" by simp
  have one: "\<exists>!d. (hd row, d) \<in> set cs" if "row \<in> set data" for row
  proof -
    from that keys have "hd row \<in> fst ` set cs" by auto
    then obtain d where d: "(hd row, d) \<in> set cs" by force
    moreover have "d' = d" if d': "(hd row, d') \<in> set cs" for d'
      using dist d d' by (rule eq_key_imp_eq_value [symmetric])
    ultimately show ?thesis by blast
  qed
  from len keys one show ?thesis unfolding doc by simp
qed

theorem round_trip_shape_witness:
  "convert_csv_to_json dec_float
       [['''', ''A'', ''B''], [''A'', '''', ''0.5''], [''B'', '''', '''']]
     = Inr \<lparr>nodes = [''A'', ''B''],
            correlations = [(''A'', [(''B'', 1 / 2)]), (''B'', [])]\<rparr>
   \<and> ['''', ''A'', ''B''] \<noteq> []
   \<and> int (length [''A'', ''B'']) = int (length ['''', ''A'', ''B'']) - 1
   \<and> fst ` set [(''A'', [(''B'', 1 / 2 :: rat)]), (''B'', [])]
       = hd ` set [[''A'', '''', ''0.5''], [''B'', '''', '''']]"
proof -
  let ?header = "['''', ''A'', ''B'']"
  let ?data = "[[''A'', '''', ''0.5''], [''B'', '''', '''']]"
  let ?doc = "\<lparr>nodes = [''A'', ''B''],
            correlations = [(''A'', [(''B'', 1 / 2 :: rat)]), (''B'', [])]\<rparr>"
  have run: "convert_csv_to_json dec_float (?header # ?data) = Inr ?doc"
    by (simp add: run_defs dec_defs)
  have cells: "?header \<noteq> []" by simp
  from round_trip_shape [OF run cells] run show ?thesis by simp
qed

text \<open>
  C10 (rows with the same name). On a run that completes, a name \<open>n\<close> carried by one or
  several data rows is a key of \<open>correlations\<close> exactly once, and its inner dictionary is
  the one that the last row named \<open>n\<close> builds on its own from the empty dictionary:
  whatever the earlier rows of that name stored is gone, since line 20 stores a new
  empty dictionary under the name.
\<close>

theorem duplicate_rows_last_wins:
  assumes run: "convert_csv_to_json pyfloat (header # data) = Inr doc"
    and k: "k < length data"
    and row: "data ! k = n # cells"
    and last: "\<forall>m. k < m \<and> m < length data \<longrightarrow> hd (data ! m) \<noteq> n"
  shows "count_list (map fst (correlations doc)) n = 1
       \<and> (\<exists>d. row_step pyfloat (tl header) k (data ! k) [] = Inr [(n, d)]
              \<and> map_of (correlations doc) n = Some d)"
proof -
  let ?h = "tl header"
  from run obtain cs where loop: "rows_loop pyfloat ?h 0 data [] = Inr cs"
    and doc: "doc = \<lparr>nodes = ?h, correlations = cs\<rparr>"
    by (auto simp: convert_csv_to_json_def split: sum.splits)
  from rows_loop_last [OF loop k row last] obtain d where
    d: "inner_loop pyfloat ?h k 0 cells [] = Inr d" and m: "map_of cs n = Some d"
    by auto
  from rows_loop_distinct [OF loop] have "distinct (map fst cs)" by simp
  moreover from m have "n \<in> set (map fst cs)"
    by (auto dest: map_of_SomeD intro: rev_image_eqI)
  ultimately have "count_list (map fst cs) n = 1" by (rule count_list_distinct)
  moreover from d row have "row_step pyfloat ?h k (data ! k) [] = Inr [(n, d)]"
    by (simp add: row_step_inner)
  ultimately show ?thesis using m unfolding doc by simp
qed

theorem duplicate_rows_last_wins_witness:
  "convert_csv_to_json dec_float
       [['''', ''A'', ''B'', ''C''], [''A'', '''', ''0.5'', ''0.2''], [''A'', '''', '''', ''0.9'']]
     = Inr \<lparr>nodes = [''A'', ''B'', ''C''], correlations = [(''A'', [(''C'', 9 / 10)])]\<rparr>
   \<and> hd ([[''A'', '''', ''0.5'', ''0.2''], [''A'', '''', '''', ''0.9'']] ! 0) = ''A''
   \<and> row_step dec_float [''A'', ''B'', ''C''] 1 [''A'', '''', '''', ''0.9''] []
       = Inr [(''A'', [(''C'', 9 / 10)])]
   \<and> count_list (map fst [(''A'', [(''C'', 9 / 10 :: rat)])]) ''A'' = 1"
proof -
  let ?header = "['''', ''A'', ''B'', ''C'']"
  let ?data = "[[''A'', '''', ''0.5'', ''0.2''], [''A'', '''', '''', ''0.9'']]"
  let ?doc = "\<lparr>nodes = [''A'', ''B'', ''C''],
               correlations = [(''A'', [(''C'', 9 / 10 :: rat)])]\<rparr>"
  have run: "convert_csv_to_json dec_float (?header # ?data) = Inr ?doc"
    by (simp add: run_defs dec_defs)
  have k: "1 < length ?data" by simp
  have row: "?data ! 1 = ''A'' # ['''', '''', ''0.9'']" by simp
  have last: "\<forall>m. 1 < m \<and> m < length ?data \<longrightarrow> hd (?data ! m) \<noteq> ''A''" by simp
  from duplicate_rows_last_wins [OF run k row last] run show ?thesis by simp
qed

end
